theory Spec2Isabelle
  imports Main
begin

section \<open>JavaScript strings, regular expressions and \<open>String.prototype.replace\<close>\<close>

text \<open>
  The prompt pre-processor (\<^verbatim>\<open>src/utils/processors/pre-processor.ts\<close>, the third
  document of \<^verbatim>\<open>AppHeader.tsx\<close>) works on JavaScript strings. A string is modelled
  as a \<open>char list\<close>, one \<open>char\<close> per code unit; the markers, the character classes
  and the error texts are ASCII. A thrown value is an \<open>exn\<close>; an
  operation that may throw returns \<open>exn + 'a\<close> with \<open>Inl\<close> the thrown value.
  The capability providers and the loop act on an explicit world state \<open>'w\<close>.
  Calls of \<^verbatim>\<open>Logger\<close> are left out: the logging module takes no part in the result
  and is taken not to throw. The loop is modelled twice: first with strings of any
  length, then with the maximal string length of the engine as a parameter.
\<close>

datatype exn = Error string

text \<open>
  A regular expression is modelled by what it matches when anchored at the head of the
  remaining input: the matched text \<^verbatim>\<open>match[0]\<close> and the capture groups. None of
  the three expressions of the registry looks behind the match position.
\<close>

type_synonym regex = "string \<Rightarrow> (string \<times> string list) option"

record RegExpExecArray =
  index :: nat
  matched :: string
  captures :: "string list"

text \<open>A pattern without operators, such as \<^verbatim>\<open>/\$SCREEN_OCR/\<close>.\<close>

definition literal :: "string \<Rightarrow> regex" where
  "literal p s = (if take (length p) s = p then Some (p, []) else None)"

text \<open>The character class \<^verbatim>\<open>[a-zA-Z0-9_]\<close>.\<close>

definition word_char :: "char \<Rightarrow> bool" where
  "word_char c =
     (let n = (of_char c :: nat)
      in (97 \<le> n \<and> n \<le> 122) \<or> (65 \<le> n \<and> n \<le> 90) \<or> (48 \<le> n \<and> n \<le> 57) \<or> n = 95)"

definition SCREEN_OCR_regex :: regex where
  "SCREEN_OCR_regex = literal ''$SCREEN_OCR''"

text \<open>\<^verbatim>\<open>/\$MEMORY@([a-zA-Z0-9_]+)/\<close>: the greedy group takes every word character.\<close>

definition MEMORY_regex :: regex where
  "MEMORY_regex s =
     (if take 8 s = ''$MEMORY@''
      then (let g = takeWhile word_char (drop 8 s)
            in if g = [] then None else Some (''$MEMORY@'' @ g, [g]))
      else None)"

definition SCREEN_64_regex :: regex where
  "SCREEN_64_regex = literal ''$SCREEN_64''"

text \<open>The leftmost match at or after position \<open>i\<close>, the input being the text from \<open>i\<close> on.\<close>

fun search :: "regex \<Rightarrow> nat \<Rightarrow> string \<Rightarrow> RegExpExecArray option" where
  "search r i [] =
     (case r [] of
        None \<Rightarrow> None
      | Some (m, gs) \<Rightarrow> Some \<lparr>index = i, matched = m, captures = gs\<rparr>)"
| "search r i (c # cs) =
     (case r (c # cs) of
        None \<Rightarrow> search r (Suc i) cs
      | Some (m, gs) \<Rightarrow> Some \<lparr>index = i, matched = m, captures = gs\<rparr>)"

text \<open>
  \<^verbatim>\<open>regex.exec(s)\<close> of an expression with the \<^verbatim>\<open>g\<close> flag: the search starts at
  \<^verbatim>\<open>lastIndex\<close>; a match moves \<^verbatim>\<open>lastIndex\<close> behind itself, a failure resets it
  to 0. The result pairs the match with the new \<^verbatim>\<open>lastIndex\<close>.
\<close>

definition exec :: "regex \<Rightarrow> nat \<Rightarrow> string \<Rightarrow> RegExpExecArray option \<times> nat" where
  "exec r lastIndex s =
     (if length s < lastIndex then (None, 0)
      else (case search r lastIndex (drop lastIndex s) of
              None \<Rightarrow> (None, 0)
            | Some m \<Rightarrow> (Some m, index m + length (matched m))))"

text \<open>\<^verbatim>\<open>s.indexOf(p)\<close>, with \<open>None\<close> for -1.\<close>

fun indexOf :: "string \<Rightarrow> string \<Rightarrow> nat option" where
  "indexOf [] p = (if p = [] then Some 0 else None)"
| "indexOf (c # cs) p =
     (if take (length p) (c # cs) = p then Some 0 else map_option Suc (indexOf cs p))"

text \<open>
  The replacement patterns of \<^verbatim>\<open>String.prototype.replace\<close> (ECMAScript's
  GetSubstitution) for a search value that is a string: there are no capture groups, so
  the only special sequences are \<^verbatim>\<open>$$\<close> (a dollar sign), \<^verbatim>\<open>$&\<close> (the matched
  text), \<^verbatim>\<open>$`\<close> (the text before the match) and \<^verbatim>\<open>$'\<close> (the text after it);
  every other character, a lone dollar sign included, is copied.
\<close>

fun GetSubstitution :: "string \<Rightarrow> string \<Rightarrow> nat \<Rightarrow> string \<Rightarrow> string" where
  "GetSubstitution m s pos (c # d # rest) =
     (if c = CHR ''$'' \<and> d = CHR ''$'' then CHR ''$'' # GetSubstitution m s pos rest
      else if c = CHR ''$'' \<and> d = CHR ''&'' then m @ GetSubstitution m s pos rest
      else if c = CHR ''$'' \<and> d = CHR 0x60 then take pos s @ GetSubstitution m s pos rest
      else if c = CHR ''$'' \<and> d = CHR 0x27
        then drop (pos + length m) s @ GetSubstitution m s pos rest
      else c # GetSubstitution m s pos (d # rest))"
| "GetSubstitution m s pos rest = rest"

text \<open>
  \<^verbatim>\<open>s.replace(searchValue, replaceValue)\<close> with two strings: only the first
  occurrence of \<open>searchValue\<close> is replaced, by the expansion of \<open>replaceValue\<close>.
\<close>

definition replace :: "string \<Rightarrow> string \<Rightarrow> string \<Rightarrow> string" where
  "replace s searchValue replaceValue =
     (case indexOf s searchValue of
        None \<Rightarrow> s
      | Some pos \<Rightarrow>
          take pos s @ GetSubstitution searchValue s pos replaceValue
            @ drop (pos + length searchValue) s)"

section \<open>Capability providers\<close>

text \<open>
  The imports of the pre-processor that are outside the source: the screen-capture
  module and the agent database. Each call reads and updates the world and either throws
  or returns. \<^verbatim>\<open>startScreenCapture\<close> returns a stream or \<^verbatim>\<open>null\<close>,
  \<^verbatim>\<open>captureScreenImage\<close> a string or \<^verbatim>\<open>null\<close>.
\<close>

datatype MediaStream = MediaStream

record OCRResult =
  success :: bool
  ocr_text :: "string option"
  ocr_error :: "string option"

record 'w providers =
  startScreenCapture :: "'w \<Rightarrow> (exn + MediaStream option) \<times> 'w"
  captureFrameAndOCR :: "'w \<Rightarrow> (exn + OCRResult) \<times> 'w"
  captureScreenImage :: "'w \<Rightarrow> (exn + string option) \<times> 'w"
  getAgentMemory :: "string \<Rightarrow> 'w \<Rightarrow> (exn + string) \<times> 'w"

text \<open>JavaScript truthiness of a value that is a string, \<^verbatim>\<open>null\<close> or \<^verbatim>\<open>undefined\<close>.\<close>

definition truthy :: "string option \<Rightarrow> bool" where
  "truthy v = (case v of None \<Rightarrow> False | Some s \<Rightarrow> s \<noteq> [])"

section \<open>The registry of processors\<close>

record ProcessorOutput =
  replacementText :: "string option"
  images :: "string list option"

type_synonym 'w ProcessorFunction =
  "string \<Rightarrow> string \<Rightarrow> RegExpExecArray \<Rightarrow> 'w \<Rightarrow> (exn + ProcessorOutput) \<times> 'w"

record 'w Processor =
  regex :: regex
  handler :: "'w ProcessorFunction"

definition replaceWith :: "string \<Rightarrow> ProcessorOutput" where
  "replaceWith t = \<lparr>replacementText = Some t, images = None\<rparr>"

definition SCREEN_OCR_handler :: "'w providers \<Rightarrow> 'w ProcessorFunction" where
  "SCREEN_OCR_handler env agentId prompt match w =
     (case startScreenCapture env w of
        (Inl e, w1) \<Rightarrow> (Inr (replaceWith ''[Error with screen capture]''), w1)
      | (Inr None, w1) \<Rightarrow> (Inr (replaceWith ''[Error with screen capture]''), w1)
      | (Inr (Some stream), w1) \<Rightarrow>
          (case captureFrameAndOCR env w1 of
             (Inl e, w2) \<Rightarrow> (Inr (replaceWith ''[Error with screen capture]''), w2)
           | (Inr ocrResult, w2) \<Rightarrow>
               if success ocrResult \<and> truthy (ocr_text ocrResult)
               then (Inr (replaceWith (the (ocr_text ocrResult))), w2)
               else (Inr (replaceWith ''[Error performing OCR]''), w2)))"

text \<open>
  \<^verbatim>\<open>match[1]\<close> is the first capture group. Every match of \<open>MEMORY_regex\<close> has
  one; for a match without captures, which \<^verbatim>\<open>exec\<close> never produces, the handler
  is given the answer of its \<^verbatim>\<open>catch\<close> clause.
\<close>

definition MEMORY_handler :: "'w providers \<Rightarrow> 'w ProcessorFunction" where
  "MEMORY_handler env agentId prompt match w =
     (case captures match of
        [] \<Rightarrow> (Inr (replaceWith ''[Error with memory retrieval]''), w)
      | referencedAgentId # _ \<Rightarrow>
          (case getAgentMemory env referencedAgentId w of
             (Inl e, w1) \<Rightarrow> (Inr (replaceWith ''[Error with memory retrieval]''), w1)
           | (Inr memory, w1) \<Rightarrow> (Inr (replaceWith memory), w1)))"

text \<open>The test \<^verbatim>\<open>/^[A-Za-z0-9+/=]+$/.test(base64Image)\<close>.\<close>

definition base64_char :: "char \<Rightarrow> bool" where
  "base64_char c =
     (let n = (of_char c :: nat)
      in (65 \<le> n \<and> n \<le> 90) \<or> (97 \<le> n \<and> n \<le> 122) \<or> (48 \<le> n \<and> n \<le> 57)
         \<or> c = CHR ''+'' \<or> c = CHR ''/'' \<or> c = CHR ''='')"

definition base64_test :: "string \<Rightarrow> bool" where
  "base64_test s = (s \<noteq> [] \<and> list_all base64_char s)"

definition SCREEN_64_handler :: "'w providers \<Rightarrow> 'w ProcessorFunction" where
  "SCREEN_64_handler env agentId prompt match w =
     (case startScreenCapture env w of
        (Inl e, w1) \<Rightarrow> (Inr (replaceWith ''[Error with screen capture]''), w1)
      | (Inr None, w1) \<Rightarrow> (Inr (replaceWith ''[Error with screen capture]''), w1)
      | (Inr (Some stream), w1) \<Rightarrow>
          (case captureScreenImage env w1 of
             (Inl e, w2) \<Rightarrow> (Inr (replaceWith ''[Error with screen capture]''), w2)
           | (Inr base64Image, w2) \<Rightarrow>
               if truthy base64Image
               then (if \<not> base64_test (the base64Image)
                     then (Inr (replaceWith ''[Error: Invalid image data]''), w2)
                     else (Inr \<lparr>replacementText = Some [],
                                images = Some [the base64Image]\<rparr>, w2))
               else (Inr (replaceWith ''[Error capturing screen]''), w2)))"

text \<open>The entries of the table \<^verbatim>\<open>processors\<close>, and the table in the order of its keys.\<close>

definition SCREEN_OCR :: "'w providers \<Rightarrow> 'w Processor" where
  "SCREEN_OCR env = \<lparr>regex = SCREEN_OCR_regex, handler = SCREEN_OCR_handler env\<rparr>"

definition MEMORY :: "'w providers \<Rightarrow> 'w Processor" where
  "MEMORY env = \<lparr>regex = MEMORY_regex, handler = MEMORY_handler env\<rparr>"

definition SCREEN_64 :: "'w providers \<Rightarrow> 'w Processor" where
  "SCREEN_64 env = \<lparr>regex = SCREEN_64_regex, handler = SCREEN_64_handler env\<rparr>"

definition processors :: "'w providers \<Rightarrow> 'w Processor list" where
  "processors env = [SCREEN_OCR env, MEMORY env, SCREEN_64 env]"

section \<open>The resolution loop\<close>

text \<open>
  One pass of the body of the \<^verbatim>\<open>while\<close> loop, for a match that \<^verbatim>\<open>exec\<close> found
  and the \<^verbatim>\<open>lastIndex\<close> it left: the new prompt, the collected images and the new
  \<^verbatim>\<open>lastIndex\<close>, or the exception of the handler.
\<close>

definition loop_body ::
  "'w Processor \<Rightarrow> string \<Rightarrow> string \<Rightarrow> string list \<Rightarrow> RegExpExecArray \<Rightarrow> nat \<Rightarrow> 'w
     \<Rightarrow> (exn + string \<times> string list \<times> nat) \<times> 'w" where
  "loop_body processor agentId modifiedPrompt imgs match lastIndex w =
     (case handler processor agentId modifiedPrompt match w of
        (Inl e, w') \<Rightarrow> (Inl e, w')
      | (Inr processorResult, w') \<Rightarrow>
          (let placeholder = matched match;
               (modifiedPrompt', lastIndex') =
                 (case replacementText processorResult of
                    None \<Rightarrow> (modifiedPrompt, lastIndex)
                  | Some t \<Rightarrow> (replace modifiedPrompt placeholder t, 0));
               imgs' =
                 (case ProcessorOutput.images processorResult of
                    None \<Rightarrow> imgs
                  | Some is \<Rightarrow> if 0 < length is then imgs @ is else imgs)
           in (Inr (modifiedPrompt', imgs', lastIndex'), w')))"

text \<open>
  The \<^verbatim>\<open>while\<close> loop of one processor. It need not end (a replacement can bring the
  marker back), so it is a partial function: \<open>None\<close> is a loop that runs forever.
\<close>

partial_function (option) while_loop ::
  "'w Processor \<Rightarrow> string \<Rightarrow> string \<Rightarrow> string list \<Rightarrow> nat \<Rightarrow> 'w
     \<Rightarrow> ((exn + string \<times> string list) \<times> 'w) option" where
  "while_loop processor agentId modifiedPrompt imgs lastIndex w =
     (case exec (regex processor) lastIndex modifiedPrompt of
        (None, _) \<Rightarrow> Some (Inr (modifiedPrompt, imgs), w)
      | (Some match, lastIndex1) \<Rightarrow>
          (case loop_body processor agentId modifiedPrompt imgs match lastIndex1 w of
             (Inl e, w') \<Rightarrow> Some (Inl e, w')
           | (Inr (modifiedPrompt', imgs', lastIndex'), w') \<Rightarrow>
               while_loop processor agentId modifiedPrompt' imgs' lastIndex' w'))"

text \<open>The \<^verbatim>\<open>for\<close> loop over the table; \<^verbatim>\<open>lastIndex\<close> is reset for each entry.\<close>

fun for_loop ::
  "'w Processor list \<Rightarrow> string \<Rightarrow> string \<Rightarrow> string list \<Rightarrow> 'w
     \<Rightarrow> ((exn + string \<times> string list) \<times> 'w) option" where
  "for_loop [] agentId modifiedPrompt imgs w = Some (Inr (modifiedPrompt, imgs), w)"
| "for_loop (processor # rest) agentId modifiedPrompt imgs w =
     (case while_loop processor agentId modifiedPrompt imgs 0 w of
        None \<Rightarrow> None
      | Some (Inl e, w') \<Rightarrow> Some (Inl e, w')
      | Some (Inr (modifiedPrompt', imgs'), w') \<Rightarrow>
          for_loop rest agentId modifiedPrompt' imgs' w')"





record PreProcessorResult =
  modifiedPrompt :: string
  images :: "string list option"

text \<open>
  \<^verbatim>\<open>preProcess\<close> over a given table: the \<^verbatim>\<open>try\<close> block is \<open>for_loop\<close>, the
  \<^verbatim>\<open>catch\<close> clause returns an object with the original prompt and no \<^verbatim>\<open>images\<close>
  field (\<open>None\<close>). The result is what the promise settles to: \<open>Inl\<close> would be a
  rejection, \<open>None\<close> a call that never settles.
\<close>

definition preProcess_with ::
  "'w Processor list \<Rightarrow> string \<Rightarrow> string \<Rightarrow> 'w \<Rightarrow> ((exn + PreProcessorResult) \<times> 'w) option" where
  "preProcess_with table agentId systemPrompt w =
     (case for_loop table agentId systemPrompt [] w of
        None \<Rightarrow> None
      | Some (Inr (working, imgs), w') \<Rightarrow>
          Some (Inr \<lparr>modifiedPrompt = working, images = Some imgs\<rparr>, w')
      | Some (Inl e, w') \<Rightarrow>
          Some (Inr \<lparr>modifiedPrompt = systemPrompt, images = None\<rparr>, w'))"

definition preProcess ::
  "'w providers \<Rightarrow> string \<Rightarrow> string \<Rightarrow> 'w \<Rightarrow> ((exn + PreProcessorResult) \<times> 'w) option" where
  "preProcess env = preProcess_with (processors env)"


declare while_loop.simps [code]


section \<open>Vocabulary of the properties\<close>

text \<open>A text has an occurrence of a pattern when the search from its start finds one.\<close>

definition has_match :: "regex \<Rightarrow> string \<Rightarrow> bool" where
  "has_match r s = (search r 0 s \<noteq> None)"

definition marker_free :: "string \<Rightarrow> bool" where
  "marker_free s =
     (\<not> has_match SCREEN_OCR_regex s \<and> \<not> has_match MEMORY_regex s
      \<and> \<not> has_match SCREEN_64_regex s)"

text \<open>
  A replacement text that holds one of the four special sequences of
  \<^verbatim>\<open>String.prototype.replace\<close>.
\<close>

fun has_replacement_pattern :: "string \<Rightarrow> bool" where
  "has_replacement_pattern (c # d # rest) =
     (c = CHR ''$'' \<and> (d = CHR ''$'' \<or> d = CHR ''&'' \<or> d = CHR 0x60 \<or> d = CHR 0x27)
      \<or> has_replacement_pattern (d # rest))"
| "has_replacement_pattern rest = False"

text \<open>The pieces of a text joined by a separator, as \<^verbatim>\<open>Array.prototype.join\<close> does.\<close>

fun join :: "string \<Rightarrow> string list \<Rightarrow> string" where
  "join sep [] = []"
| "join sep [s] = s"
| "join sep (s # t # ss) = s @ sep @ join sep (t # ss)"

text \<open>
  Providers that answer every call the same way; the world counts the calls made.
\<close>

definition fixed_providers ::
  "(exn + MediaStream option) \<Rightarrow> (exn + OCRResult) \<Rightarrow> (exn + string option)
     \<Rightarrow> (string \<Rightarrow> exn + string) \<Rightarrow> nat providers" where
  "fixed_providers stream ocr still memory =
     \<lparr>startScreenCapture = (\<lambda>w. (stream, Suc w)),
      captureFrameAndOCR = (\<lambda>w. (ocr, Suc w)),
      captureScreenImage = (\<lambda>w. (still, Suc w)),
      getAgentMemory = (\<lambda>referencedAgentId w. (memory referencedAgentId, Suc w))\<rparr>"

text \<open>
  A table with one processor whose handler answers its first call with a replacement and
  an image and throws on every later call.
\<close>

definition flaky_table :: "nat Processor list" where
  "flaky_table =
     [\<lparr>regex = literal ''$X'',
       handler = (\<lambda>agentId prompt match w.
         if w = 0
         then (Inr \<lparr>replacementText = Some ''first'', images = Some [''aW1n'']\<rparr>, Suc w)
         else (Inl (Error ''fault''), Suc w))\<rparr>]"

section \<open>Auxiliary facts\<close>

subsection \<open>Handlers and exceptions\<close>

lemma handler_returns:
  assumes "p \<in> set (processors env)"
  shows "\<exists>t is w'. handler p a mp m w = (Inr \<lparr>replacementText = Some t, images = is\<rparr>, w')"
proof -
  have 1: "\<exists>t is w'. SCREEN_OCR_handler env a mp m w = (Inr \<lparr>replacementText = Some t, images = is\<rparr>, w')"
    by (auto simp: SCREEN_OCR_handler_def replaceWith_def split: prod.splits sum.splits option.splits)
  have 2: "\<exists>t is w'. MEMORY_handler env a mp m w = (Inr \<lparr>replacementText = Some t, images = is\<rparr>, w')"
    by (auto simp: MEMORY_handler_def replaceWith_def split: prod.splits sum.splits option.splits list.splits)
  have 3: "\<exists>t is w'. SCREEN_64_handler env a mp m w = (Inr \<lparr>replacementText = Some t, images = is\<rparr>, w')"
    by (auto simp: SCREEN_64_handler_def replaceWith_def split: prod.splits sum.splits option.splits)
  from assms 1 2 3 show ?thesis
    by (auto simp: processors_def SCREEN_OCR_def MEMORY_def SCREEN_64_def)
qed

lemma loop_body_Inl:
  "loop_body p a mp imgs m li w = (Inl e, w') \<longleftrightarrow> handler p a mp m w = (Inl e, w')"
  by (auto simp: loop_body_def Let_def split: prod.splits sum.splits option.splits)

lemma while_loop_exception:
  assumes "while_loop (p :: 'w Processor) a mp imgs li w = Some y"
  shows "\<forall>e. fst y = Inl e \<longrightarrow> (\<exists>mp' m w0. handler p a mp' m w0 = (Inl e, snd y))"
proof (rule while_loop.raw_induct
    [where P = "\<lambda>p a mp imgs li w y.
       \<forall>e. fst y = Inl e \<longrightarrow> (\<exists>mp' m w0. handler p a mp' m w0 = (Inl e, snd y))",
     OF _ assms], goal_cases)
  case (1 f p a mp imgs li w y)
  note IH = 1(1) and step = 1(2)
  obtain mo li1 where ex: "exec (regex p) li mp = (mo, li1)" by (cases "exec (regex p) li mp")
  show ?case
  proof (cases mo)
    case None
    with ex step show ?thesis by auto
  next
    case (Some match)
    obtain res w1 where lb: "loop_body p a mp imgs match li1 w = (res, w1)"
      by (cases "loop_body p a mp imgs match li1 w")
    show ?thesis
    proof (cases res)
      case (Inl e)
      with lb Some ex step have "y = (Inl e, w1)" by simp
      moreover from lb Inl have "handler p a mp match w = (Inl e, w1)"
        by (simp add: loop_body_Inl)
      ultimately show ?thesis by auto
    next
      case (Inr st)
      with lb Some ex step
      have "f p a (fst st) (fst (snd st)) (snd (snd st)) w1 = Some y"
        by (auto split: prod.splits)
      from IH [OF this] show ?thesis .
    qed
  qed
qed

lemma for_loop_exception:
  "for_loop table a mp imgs w = Some (Inl e, w') \<Longrightarrow>
   \<exists>p\<in>set table. \<exists>mp' m w0. handler p a mp' m w0 = (Inl e, w')"
proof (induction table arbitrary: mp imgs w)
  case Nil
  then show ?case by simp
next
  case (Cons p rest)
  show ?case
  proof (cases "while_loop p a mp imgs 0 w")
    case None
    with Cons.prems show ?thesis by simp
  next
    case (Some y)
    obtain r w1 where y: "y = (r, w1)" by (cases y)
    show ?thesis
    proof (cases r)
      case (Inl e')
      with Some y Cons.prems have "e' = e" "w1 = w'" by auto
      with while_loop_exception [OF Some] y Inl show ?thesis by auto
    next
      case (Inr st)
      with Some y Cons.prems have "for_loop rest a (fst st) (snd st) w1 = Some (Inl e, w')"
        by (auto split: prod.splits)
      from Cons.IH [OF this] show ?thesis by auto
    qed
  qed
qed

lemma for_loop_processors_no_exception:
  "for_loop (processors env) a mp imgs w \<noteq> Some (Inl e, w')"
proof
  assume "for_loop (processors env) a mp imgs w = Some (Inl e, w')"
  from for_loop_exception [OF this] obtain p mp' m w0
    where "p \<in> set (processors env)" "handler p a mp' m w0 = (Inl e, w')" by blast
  with handler_returns [of p env a mp' m w0] show False by auto
qed

subsection \<open>Texts without a match\<close>

lemma exec_no_match: "\<not> has_match r s \<Longrightarrow> exec r 0 s = (None, 0)"
  by (simp add: exec_def has_match_def)

lemma while_loop_no_match:
  "\<not> has_match (regex p) s \<Longrightarrow> while_loop p a s imgs 0 w = Some (Inr (s, imgs), w)"
  by (subst while_loop.simps) (simp add: exec_no_match)

subsection \<open>The base64 test\<close>

lemma range_cases: "a \<le> (n::nat) \<and> n \<le> b \<longleftrightarrow> n \<in> set [a..<Suc b]"
  by auto

lemma base64_char_alphabet:
  "base64_char c \<longleftrightarrow>
     c \<in> set ''ABCDEFGHIJKLMNOPQRSTUVWXYZabcdefghijklmnopqrstuvwxyz0123456789+/=''"
proof -
  have inj: "c = d \<longleftrightarrow> (of_char c :: nat) = of_char d" for d
    by simp
  show ?thesis
    unfolding base64_char_def Let_def range_cases
    by (simp only: set_simps insert_iff empty_iff inj) (simp add: upt_rec)
qed

lemma base64_test_alphabet:
  "base64_test s \<longleftrightarrow>
     s \<noteq> [] \<and> set s \<subseteq> set ''ABCDEFGHIJKLMNOPQRSTUVWXYZabcdefghijklmnopqrstuvwxyz0123456789+/=''"
  unfolding base64_test_def list_all_iff
  using base64_char_alphabet by blast

subsection \<open>Searching and replacing\<close>

lemma literal_None: "literal p s = None \<longleftrightarrow> take (length p) s \<noteq> p"
  by (simp add: literal_def)

lemma literal_Some: "literal p s = Some x \<longleftrightarrow> take (length p) s = p \<and> x = (p, [])"
  by (auto simp: literal_def)

lemma search_literal:
  "search (literal p) k s =
     map_option (\<lambda>i. \<lparr>index = k + i, matched = p, captures = []\<rparr>) (indexOf s p)"
proof (induction s arbitrary: k)
  case Nil
  show ?case
    by (auto simp: literal_None literal_Some split: option.splits)
next
  case (Cons c cs)
  show ?case
    by (auto simp: literal_None literal_Some Cons.IH option.map_comp comp_def split: option.splits)
qed

lemma indexOf_split:
  "indexOf s p = Some i \<Longrightarrow> s = take i s @ p @ drop (i + length p) s"
proof (induction s arbitrary: i)
  case Nil
  then show ?case by (simp split: if_splits)
next
  case (Cons c cs)
  show ?case
  proof (cases "take (length p) (c # cs) = p")
    case True
    with Cons.prems have "i = 0" by simp
    moreover have "c # cs = take (length p) (c # cs) @ drop (length p) (c # cs)"
      by (simp only: append_take_drop_id)
    ultimately show ?thesis using True by simp
  next
    case False
    with Cons.prems obtain j where j: "indexOf cs p = Some j" "i = Suc j" by auto
    from Cons.IH [OF j(1)] j(2) show ?thesis by simp
  qed
qed

lemma GetSubstitution_plain:
  "\<not> has_replacement_pattern t \<Longrightarrow> GetSubstitution m s pos t = t"
  by (induction m s pos t rule: GetSubstitution.induct) auto

lemma replace_found:
  assumes "indexOf s p = Some i" and "\<not> has_replacement_pattern t"
  shows "replace s p t = take i s @ t @ drop (i + length p) s"
  using assms by (simp add: replace_def GetSubstitution_plain)

lemma exec_literal:
  assumes "exec (literal p) 0 s = (Some match, li)"
  shows "indexOf s p = Some (index match) \<and> matched match = p"
  using assms
  by (auto simp: exec_def search_literal split: option.splits)

lemma has_match_literal: "has_match (literal p) s \<longleftrightarrow> indexOf s p \<noteq> None"
  by (simp add: has_match_def search_literal)

subsection \<open>The first occurrence of a marker\<close>

lemma indexOf_self: "p \<noteq> [] \<Longrightarrow> indexOf (p @ x) p = Some 0"
  by (cases p) auto

lemma take_within: "n \<le> length B \<Longrightarrow> take n (B @ Z) = take n B"
  by simp

lemma overlap_head:
  assumes eq: "take (length M) (B @ M @ X) = M"
      and B: "B \<noteq> []" and len: "length B < length M"
  shows "hd M \<in> set (tl M)"
proof -
  from len have M: "M \<noteq> []" by auto
  from eq len have "M = B @ take (length M - length B) (M @ X)"
    by simp
  moreover from len M have "take (length M - length B) (M @ X) = hd M # tl (take (length M - length B) (M @ X))"
    by (cases M) (auto simp: take_Cons')
  ultimately have "M = B @ hd M # tl (take (length M - length B) (M @ X))"
    by simp
  then have "tl M = tl B @ hd M # tl (take (length M - length B) (M @ X))"
    using B by (metis tl_append2)
  then show ?thesis
    by (metis in_set_conv_decomp)
qed

lemma first_occurrence:
  assumes "indexOf (A @ Y) M = None" and "M \<noteq> []" and "hd M \<notin> set (tl M)"
  shows "indexOf (A @ M @ X) M = Some (length A)"
  using assms(1)
proof (induction A)
  case Nil
  from assms(2) show ?case by (simp add: indexOf_self)
next
  case (Cons a A)
  from Cons.prems have no: "take (length M) (a # A @ Y) \<noteq> M"
    and rest: "indexOf (A @ Y) M = None"
    by (auto split: if_splits)
  have "take (length M) (a # A @ M @ X) \<noteq> M"
  proof
    assume eq: "take (length M) (a # A @ M @ X) = M"
    show False
    proof (cases "length M \<le> length (a # A)")
      case True
      then have "take (length M) (a # A @ Y) = take (length M) (a # A @ M @ X)"
        using take_within [of "length M" "a # A" Y] take_within [of "length M" "a # A" "M @ X"]
        by simp
      with eq no show False by simp
    next
      case False
      then have "length (a # A) < length M" by simp
      from overlap_head [of M "a # A" X] eq this assms(3) show False by simp
    qed
  qed
  with Cons.IH [OF rest] show ?case by simp
qed

subsection \<open>Draining the OCR marker\<close>

lemma SCREEN_OCR_handler_success:
  assumes start: "\<And>w. \<exists>w'. startScreenCapture env w = (Inr (Some MediaStream), w')"
      and ocr: "\<And>w. \<exists>w' err. captureFrameAndOCR env w =
                  (Inr \<lparr>success = True, ocr_text = Some T, ocr_error = err\<rparr>, w')"
      and T: "T \<noteq> []"
  shows "\<exists>w'. SCREEN_OCR_handler env agentId prompt match w = (Inr (replaceWith T), w')"
proof -
  from start obtain w1 where 1: "startScreenCapture env w = (Inr (Some MediaStream), w1)"
    by blast
  from ocr obtain w2 err where 2: "captureFrameAndOCR env w1 =
                  (Inr \<lparr>success = True, ocr_text = Some T, ocr_error = err\<rparr>, w2)"
    by blast
  from 1 2 T show ?thesis
    by (simp add: SCREEN_OCR_handler_def truthy_def)
qed

lemma SCREEN_OCR_drain:
  assumes start: "\<And>w. \<exists>w'. startScreenCapture env w = (Inr (Some MediaStream), w')"
      and ocr: "\<And>w. \<exists>w' err. captureFrameAndOCR env w =
                  (Inr \<lparr>success = True, ocr_text = Some T, ocr_error = err\<rparr>, w')"
      and T: "T \<noteq> []" and plain: "\<not> has_replacement_pattern T"
  shows "indexOf (pre @ join T segs) ''$SCREEN_OCR'' = None \<Longrightarrow>
         \<exists>w'. while_loop (SCREEN_OCR env) agentId (pre @ join ''$SCREEN_OCR'' segs) imgs 0 w
                 = Some (Inr (pre @ join T segs, imgs), w')"
proof (induction "''$SCREEN_OCR''" segs arbitrary: pre w rule: join.induct)
  case 1
  then have "\<not> has_match (regex (SCREEN_OCR env)) pre"
    by (simp add: SCREEN_OCR_def SCREEN_OCR_regex_def has_match_literal)
  from while_loop_no_match [OF this] show ?case by simp
next
  case (2 s)
  then have "\<not> has_match (regex (SCREEN_OCR env)) (pre @ s)"
    by (simp add: SCREEN_OCR_def SCREEN_OCR_regex_def has_match_literal)
  from while_loop_no_match [OF this] show ?case by simp
next
  case (3 s t ss)
  let ?M = "''$SCREEN_OCR''"
  let ?text = "(pre @ s) @ ?M @ join ?M (t # ss)"
  have len: "length ?M = 11" by simp
  from "3.prems" have none: "indexOf ((pre @ s) @ T @ join T (t # ss)) ?M = None"
    by simp
  have ix: "indexOf ?text ?M = Some (length (pre @ s))"
    by (rule first_occurrence [OF none]) simp_all
  then have ex: "exec SCREEN_OCR_regex 0 ?text =
      (Some \<lparr>index = length (pre @ s), matched = ?M, captures = []\<rparr>, length (pre @ s) + 11)"
    by (simp add: exec_def SCREEN_OCR_regex_def search_literal)
  obtain w1 where h: "SCREEN_OCR_handler env agentId ?text
       \<lparr>index = length (pre @ s), matched = ?M, captures = []\<rparr> w = (Inr (replaceWith T), w1)"
    using SCREEN_OCR_handler_success [OF start ocr T] by blast
  have "replace ?text ?M T = take (length (pre @ s)) ?text @ T
          @ drop (length (pre @ s) + length ?M) ?text"
    by (rule replace_found [OF ix plain])
  also have "\<dots> = (pre @ s @ T) @ join ?M (t # ss)"
    by simp
  finally have rep: "replace ?text ?M T = (pre @ s @ T) @ join ?M (t # ss)" .
  have body: "loop_body (SCREEN_OCR env) agentId ?text imgs
       \<lparr>index = length (pre @ s), matched = ?M, captures = []\<rparr> (length (pre @ s) + 11) w
       = (Inr ((pre @ s @ T) @ join ?M (t # ss), imgs, 0), w1)"
    by (simp only: loop_body_def SCREEN_OCR_def Processor.simps h replaceWith_def
          ProcessorOutput.simps RegExpExecArray.simps rep Let_def prod.case sum.case option.case)
  have step: "while_loop (SCREEN_OCR env) agentId ?text imgs 0 w =
              while_loop (SCREEN_OCR env) agentId ((pre @ s @ T) @ join ?M (t # ss)) imgs 0 w1"
    apply (subst while_loop.simps)
    apply (simp only: SCREEN_OCR_def Processor.simps ex prod.case option.case)
    apply (simp only: body [unfolded SCREEN_OCR_def] prod.case sum.case)
    done
  from none have "indexOf ((pre @ s @ T) @ join T (t # ss)) ?M = None"
    by simp
  from "3.hyps" [OF this, of w1] obtain w' where
    "while_loop (SCREEN_OCR env) agentId ((pre @ s @ T) @ join ?M (t # ss)) imgs 0 w1
       = Some (Inr ((pre @ s @ T) @ join T (t # ss), imgs), w')"
    by blast
  with step have "while_loop (SCREEN_OCR env) agentId ?text imgs 0 w
       = Some (Inr ((pre @ s @ T) @ join T (t # ss), imgs), w')"
    by simp
  then show ?case by auto
qed

subsection \<open>Occurrences, the cursor and the end of a loop\<close>

lemma has_match_iff: "has_match r s \<longleftrightarrow> (\<exists>i\<le>length s. r (drop i s) \<noteq> None)"
proof -
  have "search r k s = None \<longleftrightarrow> (\<forall>i\<le>length s. r (drop i s) = None)" for k
  proof (induction s arbitrary: k)
    case Nil
    show ?case by (simp split: option.splits)
  next
    case (Cons c cs)
    have "(\<forall>i\<le>Suc (length cs). r (drop i (c # cs)) = None) \<longleftrightarrow>
          r (c # cs) = None \<and> (\<forall>i\<le>length cs. r (drop i cs) = None)"
      (is "?L \<longleftrightarrow> ?R")
    proof
      assume l: ?L
      have "r (drop 0 (c # cs)) = None" using l by blast
      moreover have "r (drop i cs) = None" if "i \<le> length cs" for i
        using l [rule_format, of "Suc i"] that by simp
      ultimately show ?R by simp
    next
      assume r: ?R
      show ?L
      proof (intro allI impI)
        fix i assume "i \<le> Suc (length cs)"
        then show "r (drop i (c # cs)) = None"
          using r by (cases i) auto
      qed
    qed
    then show ?case
      by (simp add: Cons.IH split: option.splits)
  qed
  then show ?thesis by (auto simp: has_match_def)
qed

lemma loop_body_resets_cursor:
  assumes "p \<in> set (processors env)"
      and "loop_body p a mp imgs m li w = (Inr (mp', imgs', li'), w')"
  shows "li' = 0"
proof -
  from handler_returns [OF assms(1), of a mp m w] obtain t "is" w1
    where "handler p a mp m w = (Inr \<lparr>replacementText = Some t, images = is\<rparr>, w1)"
    by blast
  with assms(2) show ?thesis
    by (simp add: loop_body_def Let_def split: option.splits if_splits)
qed

lemma while_loop_drains_aux:
  assumes run: "while_loop (p :: 'w Processor) a mp imgs li w = Some y"
  shows "li = 0 \<and> (\<forall>a mp m w0 out w1. handler p a mp m w0 = (Inr out, w1)
                       \<longrightarrow> replacementText out \<noteq> None)
         \<longrightarrow> (\<forall>x. fst y = Inr x \<longrightarrow> \<not> has_match (regex p) (fst x))"
proof (rule while_loop.raw_induct
    [where P = "\<lambda>p a mp imgs li w y.
       li = 0 \<and> (\<forall>a mp m w0 out w1. handler p a mp m w0 = (Inr out, w1)
                     \<longrightarrow> replacementText out \<noteq> None)
       \<longrightarrow> (\<forall>x. fst y = Inr x \<longrightarrow> \<not> has_match (regex p) (fst x))",
     OF _ run], goal_cases)
  case (1 f p a mp imgs li w y)
  note IH = 1(1) and step = 1(2)
  show ?case
  proof (intro impI allI, elim conjE)
    fix x
    assume li: "li = 0"
      and def: "\<forall>a mp m w0 out w1. handler p a mp m w0 = (Inr out, w1)
                     \<longrightarrow> replacementText out \<noteq> None"
      and y: "fst y = Inr x"
    obtain mo li1 where ex: "exec (regex p) 0 mp = (mo, li1)"
      by (cases "exec (regex p) 0 mp")
    show "\<not> has_match (regex p) (fst x)"
    proof (cases mo)
      case None
      with ex step li have "y = (Inr (mp, imgs), w)" by simp
      with y have "fst x = mp" by auto
      moreover from ex None have "search (regex p) 0 mp = None"
        by (auto simp: exec_def split: option.splits)
      ultimately show ?thesis by (simp add: has_match_def)
    next
      case (Some match)
      obtain res w1 where lb: "loop_body p a mp imgs match li1 w = (res, w1)"
        by (cases "loop_body p a mp imgs match li1 w")
      show ?thesis
      proof (cases res)
        case (Inl e)
        with lb Some ex step li have "y = (Inl e, w1)" by simp
        with y show ?thesis by simp
      next
        case (Inr st)
        obtain mp1 imgs1 li' where st: "st = (mp1, imgs1, li')" by (cases st)
        obtain hr wh where h: "handler p a mp match w = (hr, wh)"
          by (cases "handler p a mp match w")
        with lb Inr obtain out where out: "hr = Inr out"
          by (cases hr) (auto simp: loop_body_def)
        with h def obtain t where "replacementText out = Some t"
          by blast
        with lb Inr st h out have li': "li' = 0"
          by (auto simp: loop_body_def Let_def)
        from lb Some ex step li Inr st li'
        have "f p a mp1 imgs1 0 w1 = Some y" by simp
        from IH [OF this] def y show ?thesis by blast
      qed
    qed
  qed
qed

subsection \<open>Matches of the memory pattern\<close>

lemma MEMORY_regex_Some:
  "MEMORY_regex s = Some (mt, gs) \<longleftrightarrow>
     take 8 s = ''$MEMORY@'' \<and> takeWhile word_char (drop 8 s) \<noteq> []
     \<and> mt = ''$MEMORY@'' @ takeWhile word_char (drop 8 s)
     \<and> gs = [takeWhile word_char (drop 8 s)]"
  by (auto simp: MEMORY_regex_def Let_def)

lemma MEMORY_regex_prefix:
  assumes "MEMORY_regex s = Some (mt, gs)"
  shows "take (length mt) s = mt"
proof -
  let ?g = "takeWhile word_char (drop 8 s)"
  from assms have p: "take 8 s = ''$MEMORY@''" and mt: "mt = ''$MEMORY@'' @ ?g"
    by (simp_all add: MEMORY_regex_Some)
  have "s = take 8 s @ drop 8 s" by simp
  also have "drop 8 s = ?g @ dropWhile word_char (drop 8 s)" by simp
  finally have "s = mt @ dropWhile word_char (drop 8 s)"
    using p mt by simp
  then show ?thesis
    by (metis append_eq_conv_conj)
qed

lemma MEMORY_regex_starts:
  assumes "take (length (''$MEMORY@'' @ g)) s = ''$MEMORY@'' @ g" and "g \<noteq> []"
      and "word_char (hd g)"
  shows "MEMORY_regex s \<noteq> None"
proof -
  have "s = take (length (''$MEMORY@'' @ g)) s @ drop (length (''$MEMORY@'' @ g)) s"
    by (simp only: append_take_drop_id)
  with assms(1) obtain rest where s: "s = ''$MEMORY@'' @ g @ rest"
    by (metis append.assoc)
  have p: "take 8 s = ''$MEMORY@''"
    by (simp add: s)
  have "drop 8 s = g @ rest"
    by (simp add: s)
  with assms(2,3) have "takeWhile word_char (drop 8 s) \<noteq> []"
    by (cases g) auto
  with p show ?thesis
    by (simp add: MEMORY_regex_def Let_def)
qed

lemma search_MEMORY:
  "search MEMORY_regex k s = Some m \<Longrightarrow>
     indexOf s (matched m) = Some (index m - k) \<and> k \<le> index m
     \<and> (\<exists>g. captures m = [g] \<and> g \<noteq> [] \<and> list_all word_char g
            \<and> matched m = ''$MEMORY@'' @ g)"
proof (induction s arbitrary: k)
  case Nil
  then show ?case by (simp add: MEMORY_regex_def)
next
  case (Cons c cs)
  show ?case
  proof (cases "MEMORY_regex (c # cs)")
    case (Some x)
    obtain mt gs where x: "x = (mt, gs)" by (cases x)
    with Some Cons.prems have m: "m = \<lparr>index = k, matched = mt, captures = gs\<rparr>"
      by simp
    from Some x have pre: "take (length mt) (c # cs) = mt"
      by (simp add: MEMORY_regex_prefix)
    let ?g = "takeWhile word_char (drop 8 (c # cs))"
    from Some x have g: "?g \<noteq> []" "mt = ''$MEMORY@'' @ ?g" "gs = [?g]"
      by (simp_all add: MEMORY_regex_Some)
    have "list_all word_char ?g"
      by (auto simp: list_all_iff dest: set_takeWhileD)
    with m pre g show ?thesis by simp
  next
    case None
    with Cons.prems have rest: "search MEMORY_regex (Suc k) cs = Some m" by simp
    from Cons.IH [OF rest] obtain g where
      ix: "indexOf cs (matched m) = Some (index m - Suc k)" and le: "Suc k \<le> index m"
      and g: "captures m = [g]" "g \<noteq> []" "list_all word_char g" "matched m = ''$MEMORY@'' @ g"
      by blast
    from g(2,3) have hd: "word_char (hd g)"
      by (cases g) simp_all
    have "take (length (matched m)) (c # cs) \<noteq> matched m"
    proof
      assume "take (length (matched m)) (c # cs) = matched m"
      with g hd have "MEMORY_regex (c # cs) \<noteq> None"
        using MEMORY_regex_starts [of g "c # cs"] by simp
      with None show False by simp
    qed
    moreover from le have "Suc (index m - Suc k) = index m - k" by simp
    ultimately show ?thesis using ix le g by simp
  qed
qed

lemma exec_MEMORY:
  assumes "exec MEMORY_regex 0 s = (Some match, li)"
  shows "indexOf s (matched match) = Some (index match)
       \<and> (\<exists>g. captures match = [g] \<and> g \<noteq> [] \<and> list_all word_char g
              \<and> matched match = ''$MEMORY@'' @ g)"
proof -
  from assms have "search MEMORY_regex 0 s = Some match"
    by (auto simp: exec_def split: option.splits)
  from search_MEMORY [OF this] show ?thesis by auto
qed

subsection \<open>An engine with a maximal string length\<close>










section \<open>The claims\<close>

text \<open>
  C1: \<open>preProcess\<close> never raises to its caller. Whatever the table of processors, the
  promise is never rejected. The \<^verbatim>\<open>try\<close> block is left by an exception only when
  a handler threw it outside its own \<^verbatim>\<open>try\<close>, and then the result carries the
  original prompt, without the substitutions made so far and without the images
  collected so far.
\<close>

theorem preProcess_never_raises:
  "preProcess_with table agentId systemPrompt w \<noteq> Some (Inl e, w')
   \<and> preProcess env agentId systemPrompt w \<noteq> Some (Inl e, w')
   \<and> (for_loop table agentId systemPrompt [] w = Some (Inl e, w') \<longrightarrow>
        (\<exists>p\<in>set table. \<exists>working match w0.
            handler p agentId working match w0 = (Inl e, w'))
        \<and> preProcess_with table agentId systemPrompt w =
            Some (Inr \<lparr>modifiedPrompt = systemPrompt, images = None\<rparr>, w'))"
proof -
  have 1: "preProcess_with table agentId systemPrompt w \<noteq> Some (Inl e, w')" for table
    by (auto simp: preProcess_with_def split: option.splits prod.splits sum.splits)
  have 2: "preProcess env agentId systemPrompt w \<noteq> Some (Inl e, w')"
    using 1 [of "processors env"] by (simp add: preProcess_def)
  have 3: "preProcess_with table agentId systemPrompt w =
            Some (Inr \<lparr>modifiedPrompt = systemPrompt, images = None\<rparr>, w')"
    if "for_loop table agentId systemPrompt [] w = Some (Inl e, w')"
    using that by (simp add: preProcess_with_def)
  from 1 [of table] 2 3 for_loop_exception [of table agentId systemPrompt "[]" w e w']
  show ?thesis by blast
qed

theorem preProcess_never_raises_witness:
  "for_loop flaky_table ''agent'' ''$X and $X'' [] 0 = Some (Inl (Error ''fault''), 2)
   \<and> preProcess_with flaky_table ''agent'' ''$X and $X'' 0 =
       Some (Inr \<lparr>modifiedPrompt = ''$X and $X'', images = None\<rparr>, 2)"
proof -
  have h: "for_loop flaky_table ''agent'' ''$X and $X'' [] 0 = Some (Inl (Error ''fault''), 2)"
    by code_simp
  from preProcess_never_raises [of flaky_table "''agent''" "''$X and $X''" 0 "Error ''fault''" 2] h
  show ?thesis by blast
qed




text \<open>
  C8: on a template without an occurrence of any of the three registered patterns,
  \<open>preProcess\<close> returns the template itself and an empty list of images, and calls no
  provider; so running it again on its own result is a no-op.
\<close>

theorem preProcess_marker_free:
  assumes "marker_free template"
  shows "preProcess env agentId template w =
           Some (Inr \<lparr>modifiedPrompt = template, images = Some []\<rparr>, w)
         \<and> (case preProcess env agentId template w of
               Some (Inr r, w1) \<Rightarrow>
                 preProcess env agentId (modifiedPrompt r) w1 = Some (Inr r, w1)
             | _ \<Rightarrow> False)"
proof -
  have "preProcess env agentId template w =
          Some (Inr \<lparr>modifiedPrompt = template, images = Some []\<rparr>, w)"
    using assms
    by (simp add: preProcess_def preProcess_with_def processors_def marker_free_def
          SCREEN_OCR_def MEMORY_def SCREEN_64_def while_loop_no_match)
  then show ?thesis by simp
qed

theorem preProcess_marker_free_witness:
  "marker_free ''You are a helpful agent. Cost: $5 for $MEMORY@ of $SCREEN_6''
   \<and> preProcess (fixed_providers (Inr None) (Inl (Error ''x'')) (Inr None) (\<lambda>a. Inr a))
        ''agent'' ''You are a helpful agent. Cost: $5 for $MEMORY@ of $SCREEN_6'' 0 =
       Some (Inr \<lparr>modifiedPrompt = ''You are a helpful agent. Cost: $5 for $MEMORY@ of $SCREEN_6'',
                    images = Some []\<rparr>, 0)"
proof -
  have h: "marker_free ''You are a helpful agent. Cost: $5 for $MEMORY@ of $SCREEN_6''"
    by code_simp
  from preProcess_marker_free
         [OF h, of "fixed_providers (Inr None) (Inl (Error ''x'')) (Inr None) (\<lambda>a. Inr a)"
            "''agent''" 0] h
  show ?thesis by blast
qed

text \<open>
  C9: in the handler of \<^verbatim>\<open>$SCREEN_64\<close>, a step that throws, or a falsy stream from
  \<^verbatim>\<open>startScreenCapture\<close>, gives the replacement \<^verbatim>\<open>[Error with screen capture]\<close>;
  the replacement \<^verbatim>\<open>[Error capturing screen]\<close> arises only when
  \<^verbatim>\<open>captureScreenImage\<close> returned, without throwing, a falsy value.
\<close>

theorem SCREEN_64_error_literals:
  "(startScreenCapture env w = (Inl e, w1) \<or> startScreenCapture env w = (Inr None, w1) \<longrightarrow>
      SCREEN_64_handler env agentId prompt match w =
        (Inr \<lparr>replacementText = Some ''[Error with screen capture]'', images = None\<rparr>, w1))
   \<and> (startScreenCapture env w = (Inr (Some stream), w1)
        \<and> captureScreenImage env w1 = (Inl e, w2) \<longrightarrow>
      SCREEN_64_handler env agentId prompt match w =
        (Inr \<lparr>replacementText = Some ''[Error with screen capture]'', images = None\<rparr>, w2))
   \<and> (SCREEN_64_handler env agentId prompt match w = (Inr out, w')
        \<and> replacementText out = Some ''[Error capturing screen]'' \<longrightarrow>
      (\<exists>s w1 v. startScreenCapture env w = (Inr (Some s), w1)
         \<and> captureScreenImage env w1 = (Inr v, w') \<and> \<not> truthy v))"
  by (auto simp: SCREEN_64_handler_def replaceWith_def
           split: prod.splits sum.splits option.splits if_splits)

theorem SCREEN_64_error_literals_witness:
  "SCREEN_64_handler
     (fixed_providers (Inr None) (Inl (Error ''unused'')) (Inr (Some ''aGVsbG8='')) (\<lambda>a. Inr a))
     ''agent'' ''$SCREEN_64'' \<lparr>index = 0, matched = ''$SCREEN_64'', captures = []\<rparr> 0
   = (Inr \<lparr>replacementText = Some ''[Error with screen capture]'', images = None\<rparr>, 1)
   \<and> SCREEN_64_handler
     (fixed_providers (Inr (Some MediaStream)) (Inl (Error ''unused''))
        (Inl (Error ''NotReadableError'')) (\<lambda>a. Inr a))
     ''agent'' ''$SCREEN_64'' \<lparr>index = 0, matched = ''$SCREEN_64'', captures = []\<rparr> 0
   = (Inr \<lparr>replacementText = Some ''[Error with screen capture]'', images = None\<rparr>, 2)"
  using SCREEN_64_error_literals
    [of "fixed_providers (Inr None) (Inl (Error ''unused'')) (Inr (Some ''aGVsbG8='')) (\<lambda>a. Inr a)"
        0 "Error ''unused''" 1 "''agent''" "''$SCREEN_64''"
        "\<lparr>index = 0, matched = ''$SCREEN_64'', captures = []\<rparr>"]
    SCREEN_64_error_literals
    [of "fixed_providers (Inr (Some MediaStream)) (Inl (Error ''unused''))
        (Inl (Error ''NotReadableError'')) (\<lambda>a. Inr a)"
        0 "Error ''NotReadableError''" 1 "''agent''" "''$SCREEN_64''"
        "\<lparr>index = 0, matched = ''$SCREEN_64'', captures = []\<rparr>" MediaStream 2]
  by (simp add: fixed_providers_def)

text \<open>
  C10: the base64 test of the \<^verbatim>\<open>$SCREEN_64\<close> handler accepts exactly the non-empty
  strings over \<^verbatim>\<open>A-Z a-z 0-9 + / =\<close>. A captured string with any other character
  gives \<^verbatim>\<open>[Error: Invalid image data]\<close> and no image; an empty captured string
  gives \<^verbatim>\<open>[Error capturing screen]\<close>.
\<close>

theorem SCREEN_64_base64_validation:
  assumes "startScreenCapture env w = (Inr (Some stream), w1)"
      and "captureScreenImage env w1 = (Inr (Some b), w2)"
  shows "(base64_test b \<longleftrightarrow>
            b \<noteq> [] \<and> set b \<subseteq> set ''ABCDEFGHIJKLMNOPQRSTUVWXYZabcdefghijklmnopqrstuvwxyz0123456789+/='')
         \<and> SCREEN_64_handler env agentId prompt match w =
            (if b = []
             then (Inr \<lparr>replacementText = Some ''[Error capturing screen]'', images = None\<rparr>, w2)
             else if set b \<subseteq> set ''ABCDEFGHIJKLMNOPQRSTUVWXYZabcdefghijklmnopqrstuvwxyz0123456789+/=''
             then (Inr \<lparr>replacementText = Some [], images = Some [b]\<rparr>, w2)
             else (Inr \<lparr>replacementText = Some ''[Error: Invalid image data]'', images = None\<rparr>, w2))"
proof -
  have "SCREEN_64_handler env agentId prompt match w =
          (if b = []
           then (Inr \<lparr>replacementText = Some ''[Error capturing screen]'', images = None\<rparr>, w2)
           else if base64_test b
           then (Inr \<lparr>replacementText = Some [], images = Some [b]\<rparr>, w2)
           else (Inr \<lparr>replacementText = Some ''[Error: Invalid image data]'', images = None\<rparr>, w2))"
    using assms by (simp add: SCREEN_64_handler_def truthy_def replaceWith_def)
  then show ?thesis
    by (simp only: base64_test_alphabet) simp
qed

theorem SCREEN_64_base64_validation_witness:
  "SCREEN_64_handler
     (fixed_providers (Inr (Some MediaStream)) (Inl (Error ''unused''))
        (Inr (Some ''data:image/png;base64,iVBORw0KGgo='')) (\<lambda>a. Inr a))
     ''agent'' ''$SCREEN_64'' \<lparr>index = 0, matched = ''$SCREEN_64'', captures = []\<rparr> 0
   = (Inr \<lparr>replacementText = Some ''[Error: Invalid image data]'', images = None\<rparr>, 2)"
  using SCREEN_64_base64_validation
    [of "fixed_providers (Inr (Some MediaStream)) (Inl (Error ''unused''))
          (Inr (Some ''data:image/png;base64,iVBORw0KGgo='')) (\<lambda>a. Inr a)"
        0 MediaStream 1 "''data:image/png;base64,iVBORw0KGgo=''" 2
        "''agent''" "''$SCREEN_64''" "\<lparr>index = 0, matched = ''$SCREEN_64'', captures = []\<rparr>"]
  by (simp add: fixed_providers_def)

text \<open>
  C2, at a failing input: the loop body splices the expansion of the replacement text, not
  the text. The OCR text \<^verbatim>\<open>cost $$9\<close> enters the prompt as \<^verbatim>\<open>cost $9\<close>.
\<close>

theorem replacement_text_expanded:
  "handler
     (SCREEN_OCR (fixed_providers (Inr (Some MediaStream))
        (Inr \<lparr>success = True, ocr_text = Some ''cost $$9'', ocr_error = None\<rparr>)
        (Inr None) (\<lambda>a. Inr a)))
     ''agent'' ''A $SCREEN_OCR B''
     \<lparr>index = 2, matched = ''$SCREEN_OCR'', captures = []\<rparr> 0
   = (Inr \<lparr>replacementText = Some ''cost $$9'', images = None\<rparr>, 2)
   \<and> loop_body
     (SCREEN_OCR (fixed_providers (Inr (Some MediaStream))
        (Inr \<lparr>success = True, ocr_text = Some ''cost $$9'', ocr_error = None\<rparr>)
        (Inr None) (\<lambda>a. Inr a)))
     ''agent'' ''A $SCREEN_OCR B'' []
     \<lparr>index = 2, matched = ''$SCREEN_OCR'', captures = []\<rparr> 13 0
   = (Inr (''A cost $9 B'', [], 0), 2)"
  by code_simp

text \<open>
  C3, at a failing input: a memory of \<^verbatim>\<open>balance: $$40\<close> is not inserted verbatim;
  the prompt receives \<^verbatim>\<open>balance: $40\<close>.
\<close>

theorem MEMORY_dollar_not_verbatim:
  "handler
     (MEMORY (fixed_providers (Inr None) (Inl (Error ''unused'')) (Inr None)
        (\<lambda>referencedAgentId. Inr ''balance: $$40'')))
     ''agent'' ''Memory: $MEMORY@wallet''
     \<lparr>index = 8, matched = ''$MEMORY@wallet'', captures = [''wallet'']\<rparr> 0
   = (Inr \<lparr>replacementText = Some ''balance: $$40'', images = None\<rparr>, 1)
   \<and> preProcess
     (fixed_providers (Inr None) (Inl (Error ''unused'')) (Inr None)
        (\<lambda>referencedAgentId. Inr ''balance: $$40''))
     ''agent'' ''Memory: $MEMORY@wallet'' 0
   = Some (Inr \<lparr>modifiedPrompt = ''Memory: balance: $40'', images = Some []\<rparr>, 1)"
  by code_simp

text \<open>
  C5, as stated: every occurrence of \<^verbatim>\<open>$SCREEN_OCR\<close> is replaced by the OCR text
  \<open>T\<close> exactly once. The template \<^verbatim>\<open>$SCR$SCREEN_OCR\<close> has one occurrence; with
  \<open>T\<close> the text \<^verbatim>\<open>EEN_OCR\<close> the replacement forms the marker again, which is
  resolved again, and the result is not \<^verbatim>\<open>$SCR\<close> followed by \<open>T\<close>. With an empty
  \<open>T\<close> the handler takes the OCR for failed.
\<close>

theorem SCREEN_OCR_reintroduced_marker:
  "preProcess
     (fixed_providers (Inr (Some MediaStream))
        (Inr \<lparr>success = True, ocr_text = Some ''EEN_OCR'', ocr_error = None\<rparr>)
        (Inr None) (\<lambda>a. Inr a))
     ''agent'' ''$SCR$SCREEN_OCR'' 0
   = Some (Inr \<lparr>modifiedPrompt = ''EEN_OCR'', images = Some []\<rparr>, 4)
   \<and> ''EEN_OCR'' \<noteq> ''$SCR'' @ ''EEN_OCR''
   \<and> preProcess
     (fixed_providers (Inr (Some MediaStream))
        (Inr \<lparr>success = True, ocr_text = Some [], ocr_error = None\<rparr>)
        (Inr None) (\<lambda>a. Inr a))
     ''agent'' ''Screen: $SCREEN_OCR'' 0
   = Some (Inr \<lparr>modifiedPrompt = ''Screen: [Error performing OCR]'', images = Some []\<rparr>, 2)"
  by code_simp

text \<open>
  C5, amended: let the template be the pieces \<open>segs\<close> joined by \<^verbatim>\<open>$SCREEN_OCR\<close>,
  let every OCR resolution succeed with the same non-empty text \<open>T\<close> that holds none of
  the replacement patterns, and let the pieces joined by \<open>T\<close> have no occurrence of the
  marker (so \<open>T\<close> does not bring the marker back). Then the loop of the OCR processor
  ends with exactly the pieces joined by \<open>T\<close>, whatever the number of occurrences, and
  collects no image; and when that text has no marker of the other processors either,
  it is the result of \<open>preProcess\<close>, with an empty list of images.
\<close>

theorem SCREEN_OCR_every_occurrence:
  assumes start: "\<And>w. \<exists>w'. startScreenCapture env w = (Inr (Some MediaStream), w')"
      and ocr: "\<And>w. \<exists>w' err. captureFrameAndOCR env w =
                  (Inr \<lparr>success = True, ocr_text = Some T, ocr_error = err\<rparr>, w')"
      and T: "T \<noteq> []" and plain: "\<not> has_replacement_pattern T"
      and inert: "\<not> has_match SCREEN_OCR_regex (join T segs)"
  shows "(\<exists>w'. while_loop (SCREEN_OCR env) agentId (join ''$SCREEN_OCR'' segs) imgs 0 w
                 = Some (Inr (join T segs, imgs), w'))
       \<and> (marker_free (join T segs) \<longrightarrow>
            (\<exists>w'. preProcess env agentId (join ''$SCREEN_OCR'' segs) w
                 = Some (Inr \<lparr>modifiedPrompt = join T segs, images = Some []\<rparr>, w')))"
proof -
  from inert have none: "indexOf ([] @ join T segs) ''$SCREEN_OCR'' = None"
    by (simp add: SCREEN_OCR_regex_def has_match_literal)
  have drain: "\<exists>w'. while_loop (SCREEN_OCR env) agentId (join ''$SCREEN_OCR'' segs) imgs 0 w
                 = Some (Inr (join T segs, imgs), w')" for imgs
    using SCREEN_OCR_drain [OF start ocr T plain none, of agentId imgs w] by simp
  have run: "\<exists>w'. preProcess env agentId (join ''$SCREEN_OCR'' segs) w
                 = Some (Inr \<lparr>modifiedPrompt = join T segs, images = Some []\<rparr>, w')"
    if free: "marker_free (join T segs)"
  proof -
    from drain [of "[]"] obtain w' where
      1: "while_loop (SCREEN_OCR env) agentId (join ''$SCREEN_OCR'' segs) [] 0 w
                 = Some (Inr (join T segs, []), w')"
      by blast
    from free have 2: "while_loop (MEMORY env) agentId (join T segs) [] 0 w'
                 = Some (Inr (join T segs, []), w')"
      by (simp add: marker_free_def MEMORY_def while_loop_no_match)
    from free have 3: "while_loop (SCREEN_64 env) agentId (join T segs) [] 0 w'
                 = Some (Inr (join T segs, []), w')"
      by (simp add: marker_free_def SCREEN_64_def while_loop_no_match)
    have "preProcess env agentId (join ''$SCREEN_OCR'' segs) w
                 = Some (Inr \<lparr>modifiedPrompt = join T segs, images = Some []\<rparr>, w')"
      by (simp add: preProcess_def preProcess_with_def processors_def 1 2 3)
    then show ?thesis by blast
  qed
  from drain [of imgs] run show ?thesis by blast
qed

theorem SCREEN_OCR_every_occurrence_witness:
  "preProcess
     (fixed_providers (Inr (Some MediaStream))
        (Inr \<lparr>success = True, ocr_text = Some ''HELLO'', ocr_error = None\<rparr>)
        (Inr None) (\<lambda>a. Inr a))
     ''agent'' ''first $SCREEN_OCR, second $SCREEN_OCR, third $SCREEN_OCR.'' 0
   = Some (Inr \<lparr>modifiedPrompt = ''first HELLO, second HELLO, third HELLO.'',
                 images = Some []\<rparr>, 6)"
proof -
  let ?env = "fixed_providers (Inr (Some MediaStream))
        (Inr \<lparr>success = True, ocr_text = Some ''HELLO'', ocr_error = None\<rparr>)
        (Inr None) (\<lambda>a. Inr a)"
  let ?segs = "[''first '', '', second '', '', third '', ''.'']"
  have s: "\<exists>w'. startScreenCapture ?env w = (Inr (Some MediaStream), w')" for w
    by (simp add: fixed_providers_def)
  have c: "\<exists>w' err. captureFrameAndOCR ?env w =
                  (Inr \<lparr>success = True, ocr_text = Some ''HELLO'', ocr_error = err\<rparr>, w')" for w
    by (simp add: fixed_providers_def)
  have t: "''HELLO'' \<noteq> []" by simp
  have p: "\<not> has_replacement_pattern ''HELLO''" by simp
  have f: "marker_free (join ''HELLO'' ?segs)" by code_simp
  then have i: "\<not> has_match SCREEN_OCR_regex (join ''HELLO'' ?segs)"
    by (simp add: marker_free_def)
  have run: "preProcess ?env ''agent'' ''first $SCREEN_OCR, second $SCREEN_OCR, third $SCREEN_OCR.'' 0
   = Some (Inr \<lparr>modifiedPrompt = ''first HELLO, second HELLO, third HELLO.'',
                 images = Some []\<rparr>, 6)"
    by code_simp
  from SCREEN_OCR_every_occurrence [OF s c t p i, of "''agent''" "[]" 0] f run
  show ?thesis by simp
qed

text \<open>
  C6: when the loop of \<^verbatim>\<open>$SCREEN_64\<close> finds an occurrence, the capture succeeds and
  the captured string passes the handler's base64 test, the span of the marker is
  replaced by the empty string, the captured string is appended to the images as one
  entry, and the loop goes on from the start of the new text.
\<close>

theorem SCREEN_64_success:
  assumes found: "exec SCREEN_64_regex 0 working = (Some match, lastIndex1)"
      and start: "startScreenCapture env w = (Inr (Some stream), w1)"
      and capture: "captureScreenImage env w1 = (Inr (Some b), w2)"
      and valid: "base64_test b"
  shows "working = take (index match) working @ ''$SCREEN_64'' @ drop (index match + 10) working
       \<and> loop_body (SCREEN_64 env) agentId working imgs match lastIndex1 w =
           (Inr (take (index match) working @ drop (index match + 10) working, imgs @ [b], 0), w2)
       \<and> while_loop (SCREEN_64 env) agentId working imgs 0 w =
           while_loop (SCREEN_64 env) agentId
             (take (index match) working @ drop (index match + 10) working) (imgs @ [b]) 0 w2"
proof -
  from found have ix: "indexOf working ''$SCREEN_64'' = Some (index match)"
    and m: "matched match = ''$SCREEN_64''"
    using exec_literal [of "''$SCREEN_64''" working match lastIndex1]
    by (simp_all add: SCREEN_64_regex_def)
  have len: "length ''$SCREEN_64'' = 10" by simp
  have split: "working = take (index match) working @ ''$SCREEN_64'' @ drop (index match + 10) working"
    by (rule indexOf_split [OF ix, unfolded len])
  from valid have "b \<noteq> []" by (simp add: base64_test_def)
  with start capture valid
  have h: "SCREEN_64_handler env agentId working match w =
             (Inr \<lparr>replacementText = Some [], images = Some [b]\<rparr>, w2)"
    by (simp add: SCREEN_64_handler_def truthy_def)
  have "replace working ''$SCREEN_64'' [] =
          take (index match) working @ drop (index match + 10) working"
    using replace_found [OF ix, of "[]", unfolded len] by simp
  then have body: "loop_body (SCREEN_64 env) agentId working imgs match lastIndex1 w =
           (Inr (take (index match) working @ drop (index match + 10) working, imgs @ [b], 0), w2)"
    by (simp add: loop_body_def SCREEN_64_def h m)
  have loop: "while_loop (SCREEN_64 env) agentId working imgs 0 w =
           while_loop (SCREEN_64 env) agentId
             (take (index match) working @ drop (index match + 10) working) (imgs @ [b]) 0 w2"
    apply (subst while_loop.simps)
    using found body apply (simp add: SCREEN_64_def)
    done
  from split body loop show ?thesis by blast
qed

theorem SCREEN_64_success_witness:
  "loop_body
     (SCREEN_64 (fixed_providers (Inr (Some MediaStream)) (Inl (Error ''unused''))
        (Inr (Some ''aGVsbG8='')) (\<lambda>a. Inr a)))
     ''agent'' ''Describe $SCREEN_64 now'' []
     \<lparr>index = 9, matched = ''$SCREEN_64'', captures = []\<rparr> 19 0
   = (Inr (''Describe  now'', [''aGVsbG8=''], 0), 2)
   \<and> preProcess
     (fixed_providers (Inr (Some MediaStream)) (Inl (Error ''unused''))
        (Inr (Some ''aGVsbG8='')) (\<lambda>a. Inr a))
     ''agent'' ''Describe $SCREEN_64 now'' 0
   = Some (Inr \<lparr>modifiedPrompt = ''Describe  now'', images = Some [''aGVsbG8='']\<rparr>, 2)"
proof -
  let ?env = "fixed_providers (Inr (Some MediaStream)) (Inl (Error ''unused''))
        (Inr (Some ''aGVsbG8='')) (\<lambda>a. Inr a)"
  have f: "exec SCREEN_64_regex 0 ''Describe $SCREEN_64 now'' =
             (Some \<lparr>index = 9, matched = ''$SCREEN_64'', captures = []\<rparr>, 19)"
    by code_simp
  have s: "startScreenCapture ?env 0 = (Inr (Some MediaStream), 1)"
    by (simp add: fixed_providers_def)
  have c: "captureScreenImage ?env 1 = (Inr (Some ''aGVsbG8=''), 2)"
    by (simp add: fixed_providers_def)
  have v: "base64_test ''aGVsbG8=''"
    by code_simp
  have run: "preProcess ?env ''agent'' ''Describe $SCREEN_64 now'' 0
     = Some (Inr \<lparr>modifiedPrompt = ''Describe  now'', images = Some [''aGVsbG8='']\<rparr>, 2)"
    by code_simp
  from SCREEN_64_success [OF f s c v, of "''agent''" "[]"] run show ?thesis
    by simp
qed

text \<open>
  C7: when the loop of \<^verbatim>\<open>$SCREEN_64\<close> finds an occurrence and
  \<^verbatim>\<open>captureScreenImage\<close> returns no image (a falsy value), the span of the marker is
  replaced by \<^verbatim>\<open>[Error capturing screen]\<close> and the images stay as they were: nothing
  is appended for that occurrence.
\<close>

theorem SCREEN_64_capture_failure:
  assumes found: "exec SCREEN_64_regex 0 working = (Some match, lastIndex1)"
      and start: "startScreenCapture env w = (Inr (Some stream), w1)"
      and capture: "captureScreenImage env w1 = (Inr v, w2)"
      and falsy: "\<not> truthy v"
  shows "working = take (index match) working @ ''$SCREEN_64'' @ drop (index match + 10) working
       \<and> loop_body (SCREEN_64 env) agentId working imgs match lastIndex1 w =
           (Inr (take (index match) working @ ''[Error capturing screen]''
                   @ drop (index match + 10) working, imgs, 0), w2)
       \<and> while_loop (SCREEN_64 env) agentId working imgs 0 w =
           while_loop (SCREEN_64 env) agentId
             (take (index match) working @ ''[Error capturing screen]''
                @ drop (index match + 10) working) imgs 0 w2"
proof -
  from found have ix: "indexOf working ''$SCREEN_64'' = Some (index match)"
    and m: "matched match = ''$SCREEN_64''"
    using exec_literal [of "''$SCREEN_64''" working match lastIndex1]
    by (simp_all add: SCREEN_64_regex_def)
  have len: "length ''$SCREEN_64'' = 10" by simp
  have split: "working = take (index match) working @ ''$SCREEN_64'' @ drop (index match + 10) working"
    by (rule indexOf_split [OF ix, unfolded len])
  from start capture falsy
  have h: "SCREEN_64_handler env agentId working match w =
             (Inr \<lparr>replacementText = Some ''[Error capturing screen]'', images = None\<rparr>, w2)"
    by (simp add: SCREEN_64_handler_def replaceWith_def)
  have plain: "\<not> has_replacement_pattern ''[Error capturing screen]''"
    by simp
  have "replace working ''$SCREEN_64'' ''[Error capturing screen]'' =
          take (index match) working @ ''[Error capturing screen]''
            @ drop (index match + 10) working"
    by (rule replace_found [OF ix plain, unfolded len])
  then have body: "loop_body (SCREEN_64 env) agentId working imgs match lastIndex1 w =
           (Inr (take (index match) working @ ''[Error capturing screen]''
                   @ drop (index match + 10) working, imgs, 0), w2)"
    by (simp add: loop_body_def SCREEN_64_def h m)
  have loop: "while_loop (SCREEN_64 env) agentId working imgs 0 w =
           while_loop (SCREEN_64 env) agentId
             (take (index match) working @ ''[Error capturing screen]''
                @ drop (index match + 10) working) imgs 0 w2"
    apply (subst while_loop.simps)
    using found body apply (simp add: SCREEN_64_def)
    done
  from split body loop show ?thesis by blast
qed

theorem SCREEN_64_capture_failure_witness:
  "loop_body
     (SCREEN_64 (fixed_providers (Inr (Some MediaStream)) (Inl (Error ''unused''))
        (Inr None) (\<lambda>a. Inr a)))
     ''agent'' ''Describe $SCREEN_64 now'' []
     \<lparr>index = 9, matched = ''$SCREEN_64'', captures = []\<rparr> 19 0
   = (Inr (''Describe [Error capturing screen] now'', [], 0), 2)
   \<and> preProcess
     (fixed_providers (Inr (Some MediaStream)) (Inl (Error ''unused''))
        (Inr None) (\<lambda>a. Inr a))
     ''agent'' ''Describe $SCREEN_64 now'' 0
   = Some (Inr \<lparr>modifiedPrompt = ''Describe [Error capturing screen] now'',
                 images = Some []\<rparr>, 2)"
proof -
  let ?env = "fixed_providers (Inr (Some MediaStream)) (Inl (Error ''unused''))
        (Inr None) (\<lambda>a. Inr a)"
  have f: "exec SCREEN_64_regex 0 ''Describe $SCREEN_64 now'' =
             (Some \<lparr>index = 9, matched = ''$SCREEN_64'', captures = []\<rparr>, 19)"
    by code_simp
  have s: "startScreenCapture ?env 0 = (Inr (Some MediaStream), 1)"
    by (simp add: fixed_providers_def)
  have c: "captureScreenImage ?env 1 = (Inr None, 2)"
    by (simp add: fixed_providers_def)
  have v: "\<not> truthy None"
    by (simp add: truthy_def)
  have run: "preProcess ?env ''agent'' ''Describe $SCREEN_64 now'' 0
     = Some (Inr \<lparr>modifiedPrompt = ''Describe [Error capturing screen] now'',
                   images = Some []\<rparr>, 2)"
    by code_simp
  from SCREEN_64_capture_failure [OF f s c v, of "''agent''" "[]"] run show ?thesis
    by simp
qed

section \<open>Further properties of the loop\<close>

text \<open>
  The loop of a processor whose handler always returns a replacement text ends only when
  no occurrence of its pattern is left in the working text: such a handler makes the loop
  body reset the cursor, so the last \<^verbatim>\<open>exec\<close> searched the whole text.
\<close>

theorem while_loop_drains:
  assumes run: "while_loop p agentId working imgs 0 w = Some (Inr (working', imgs'), w')"
      and defined: "\<And>a mp m w0 out w1. handler p a mp m w0 = (Inr out, w1) \<Longrightarrow>
                       replacementText out \<noteq> None"
  shows "\<not> has_match (regex p) working'"
  using while_loop_drains_aux [OF run] defined by auto

theorem while_loop_drains_witness:
  "while_loop
     (SCREEN_OCR (fixed_providers (Inr (Some MediaStream))
        (Inr \<lparr>success = True, ocr_text = Some ''a $SCREEN_'', ocr_error = None\<rparr>)
        (Inr None) (\<lambda>a. Inr a)))
     ''agent'' ''$SCREEN_OCR$SCREEN_OCROCR'' [] 0 0
   = Some (Inr (''a $SCREEN_a a $SCREEN_'', []), 6)
   \<and> \<not> has_match SCREEN_OCR_regex ''a $SCREEN_a a $SCREEN_''"
proof -
  let ?env = "fixed_providers (Inr (Some MediaStream))
        (Inr \<lparr>success = True, ocr_text = Some ''a $SCREEN_'', ocr_error = None\<rparr>)
        (Inr None) (\<lambda>a. Inr a)"
  have run: "while_loop (SCREEN_OCR ?env) ''agent'' ''$SCREEN_OCR$SCREEN_OCROCR'' [] 0 0
               = Some (Inr (''a $SCREEN_a a $SCREEN_'', []), 6)"
    by code_simp
  have "SCREEN_OCR ?env \<in> set (processors ?env)"
    by (simp add: processors_def)
  from handler_returns [OF this]
  have defined: "replacementText out \<noteq> None"
    if "handler (SCREEN_OCR ?env) a mp m w0 = (Inr out, w1)" for a mp m w0 out w1
    using that by (metis ProcessorOutput.select_convs(1) Pair_inject option.distinct(1) sum.inject(2))
  from while_loop_drains [OF run defined] run show ?thesis
    by (simp add: SCREEN_OCR_def)
qed

text \<open>
  The splice of the loop body: a replacement text without replacement pattern takes the
  place of the first textual occurrence of the matched text, the images of the handler
  are appended when there are any, and the cursor is reset.
\<close>

theorem loop_body_splice:
  assumes h: "handler p agentId working match w = (Inr out, w')"
      and t: "replacementText out = Some t"
      and plain: "\<not> has_replacement_pattern t"
      and ix: "indexOf working (matched match) = Some i"
  shows "(\<forall>j<i. take (length (matched match)) (drop j working) \<noteq> matched match)
       \<and> working = take i working @ matched match @ drop (i + length (matched match)) working
       \<and> loop_body p agentId working imgs match lastIndex w =
             (Inr (take i working @ t @ drop (i + length (matched match)) working,
                   (case ProcessorOutput.images out of None \<Rightarrow> imgs
                    | Some is \<Rightarrow> if 0 < length is then imgs @ is else imgs), 0), w')"
proof -
  have first: "indexOf s q = Some i \<Longrightarrow> \<forall>j<i. take (length q) (drop j s) \<noteq> q" for s q i
  proof (induction s arbitrary: i)
    case Nil
    then show ?case by (simp split: if_splits)
  next
    case (Cons c cs)
    show ?case
    proof (cases "take (length q) (c # cs) = q")
      case True
      with Cons.prems show ?thesis by simp
    next
      case False
      with Cons.prems obtain k where k: "indexOf cs q = Some k" "i = Suc k" by auto
      show ?thesis
      proof (intro allI impI)
        fix j assume "j < i"
        show "take (length q) (drop j (c # cs)) \<noteq> q"
        proof (cases j)
          case 0
          with False show ?thesis by simp
        next
          case (Suc j')
          with \<open>j < i\<close> k(2) have "j' < k" by simp
          with Cons.IH [OF k(1)] Suc show ?thesis by simp
        qed
      qed
    qed
  qed
  have body: "loop_body p agentId working imgs match lastIndex w =
             (Inr (take i working @ t @ drop (i + length (matched match)) working,
                   (case ProcessorOutput.images out of None \<Rightarrow> imgs
                    | Some is \<Rightarrow> if 0 < length is then imgs @ is else imgs), 0), w')"
    using replace_found [OF ix plain]
    by (simp add: loop_body_def h t Let_def)
  from first [OF ix] indexOf_split [OF ix] body show ?thesis by blast
qed

theorem loop_body_splice_witness:
  "loop_body
     (MEMORY (fixed_providers (Inr None) (Inl (Error ''unused'')) (Inr None)
        (\<lambda>referencedAgentId. Inr ''state=42'')))
     ''agent'' ''$MEMORY@bot10 and $MEMORY@bot1'' []
     \<lparr>index = 18, matched = ''$MEMORY@bot1'', captures = [''bot1'']\<rparr> 30 0
   = (Inr (''state=420 and $MEMORY@bot1'', [], 0), 1)"
proof -
  let ?env = "fixed_providers (Inr None) (Inl (Error ''unused'')) (Inr None)
        (\<lambda>referencedAgentId. Inr ''state=42'')"
  let ?m = "\<lparr>index = 18, matched = ''$MEMORY@bot1'', captures = [''bot1'']\<rparr>"
  have h: "handler (MEMORY ?env) ''agent'' ''$MEMORY@bot10 and $MEMORY@bot1'' ?m 0
             = (Inr \<lparr>replacementText = Some ''state=42'', images = None\<rparr>, 1)"
    by code_simp
  have t: "replacementText \<lparr>replacementText = Some ''state=42'', images = None\<rparr>
             = Some ''state=42''"
    by simp
  have p: "\<not> has_replacement_pattern ''state=42''" by simp
  have ix: "indexOf ''$MEMORY@bot10 and $MEMORY@bot1'' (matched ?m) = Some 0"
    by simp
  from loop_body_splice [OF h t p ix, of "[]" 30] show ?thesis
    by simp
qed

text \<open>
  An occurrence of \<^verbatim>\<open>$MEMORY@<id>\<close> found by the loop: the identifier is the longest
  run of word characters behind the marker, and the matched span is replaced by the
  memory of that agent, verbatim when the memory holds no replacement pattern, or by
  \<^verbatim>\<open>[Error with memory retrieval]\<close> when the lookup throws.
\<close>

theorem MEMORY_occurrence:
  assumes found: "exec MEMORY_regex 0 working = (Some match, lastIndex1)"
      and mem: "getAgentMemory env (hd (captures match)) w = (r, w1)"
  shows "(\<exists>g. captures match = [g] \<and> g \<noteq> [] \<and> list_all word_char g
             \<and> matched match = ''$MEMORY@'' @ g)
       \<and> working = take (index match) working @ matched match
                      @ drop (index match + length (matched match)) working
       \<and> loop_body (MEMORY env) agentId working imgs match lastIndex1 w =
           (case r of
              Inl e \<Rightarrow>
                (Inr (take (index match) working @ ''[Error with memory retrieval]''
                        @ drop (index match + length (matched match)) working, imgs, 0), w1)
            | Inr memory \<Rightarrow>
                (Inr (take (index match) working
                        @ (if has_replacement_pattern memory
                           then GetSubstitution (matched match) working (index match) memory
                           else memory)
                        @ drop (index match + length (matched match)) working, imgs, 0), w1))"
proof -
  from exec_MEMORY [OF found] obtain g where
    ix: "indexOf working (matched match) = Some (index match)"
    and g: "captures match = [g]" "g \<noteq> []" "list_all word_char g"
           "matched match = ''$MEMORY@'' @ g"
    by blast
  have plain: "\<not> has_replacement_pattern ''[Error with memory retrieval]''"
    by simp
  have body: "loop_body (MEMORY env) agentId working imgs match lastIndex1 w =
           (case r of
              Inl e \<Rightarrow>
                (Inr (take (index match) working @ ''[Error with memory retrieval]''
                        @ drop (index match + length (matched match)) working, imgs, 0), w1)
            | Inr memory \<Rightarrow>
                (Inr (take (index match) working
                        @ (if has_replacement_pattern memory
                           then GetSubstitution (matched match) working (index match) memory
                           else memory)
                        @ drop (index match + length (matched match)) working, imgs, 0), w1))"
  proof (cases r)
    case (Inl e)
    with mem g(1) have "handler (MEMORY env) agentId working match w =
        (Inr \<lparr>replacementText = Some ''[Error with memory retrieval]'', images = None\<rparr>, w1)"
      by (simp add: MEMORY_def MEMORY_handler_def replaceWith_def)
    with replace_found [OF ix plain] Inl show ?thesis
      by (simp add: loop_body_def Let_def)
  next
    case (Inr memory)
    with mem g(1) have "handler (MEMORY env) agentId working match w =
        (Inr \<lparr>replacementText = Some memory, images = None\<rparr>, w1)"
      by (simp add: MEMORY_def MEMORY_handler_def replaceWith_def)
    with ix Inr show ?thesis
      by (simp add: loop_body_def Let_def replace_def GetSubstitution_plain)
  qed
  from g indexOf_split [OF ix] body show ?thesis by blast
qed

theorem MEMORY_occurrence_witness:
  "loop_body
     (MEMORY (fixed_providers (Inr None) (Inl (Error ''unused'')) (Inr None)
        (\<lambda>referencedAgentId. if referencedAgentId = ''bot_1''
           then Inr [CHR ''a'', CHR 0x0A, CHR '' '', CHR ''b''] else Inl (Error ''no such agent''))))
     ''agent'' ''see $MEMORY@bot_1!'' []
     \<lparr>index = 4, matched = ''$MEMORY@bot_1'', captures = [''bot_1'']\<rparr> 17 0
   = (Inr (''see '' @ [CHR ''a'', CHR 0x0A, CHR '' '', CHR ''b''] @ ''!'', [], 0), 1)"
proof -
  let ?env = "fixed_providers (Inr None) (Inl (Error ''unused'')) (Inr None)
        (\<lambda>referencedAgentId. if referencedAgentId = ''bot_1''
           then Inr [CHR ''a'', CHR 0x0A, CHR '' '', CHR ''b''] else Inl (Error ''no such agent''))"
  let ?m = "\<lparr>index = 4, matched = ''$MEMORY@bot_1'', captures = [''bot_1'']\<rparr>"
  have f: "exec MEMORY_regex 0 ''see $MEMORY@bot_1!'' = (Some ?m, 17)"
    by code_simp
  have g: "getAgentMemory ?env (hd (captures ?m)) 0 =
             (Inr [CHR ''a'', CHR 0x0A, CHR '' '', CHR ''b''], 1)"
    by (simp add: fixed_providers_def)
  from MEMORY_occurrence [OF f g, of "''agent''" "[]"] show ?thesis
    by simp
qed

text \<open>
  The example of the specification: an OCR marker and a memory marker in one template.
\<close>

theorem OCR_then_MEMORY_example:
  "preProcess
     (fixed_providers (Inr (Some MediaStream))
        (Inr \<lparr>success = True, ocr_text = Some ''HELLO'', ocr_error = None\<rparr>)
        (Inr None)
        (\<lambda>referencedAgentId. if referencedAgentId = ''bot1''
           then Inr ''state=42'' else Inl (Error ''no such agent'')))
     ''agent'' ''before $SCREEN_OCR after $MEMORY@bot1'' 0
   = Some (Inr \<lparr>modifiedPrompt = ''before HELLO after state=42'', images = Some []\<rparr>, 3)"
  by code_simp

end
